theory Spec2Isabelle
  imports Main "HOL-Library.Word" "HOL-Library.Sublist"
begin

unbundle bit_operations_syntax

section \<open>Bitboards\<close>

text \<open>
  A bitboard is a 32-bit unsigned value, one bit per dark square; bit \<open>i\<close> is square
  \<open>i + 1\<close> of the usual numbering. The class itself (bitboard.hpp) is not among the
  sources, so its operations are modelled from the specification.
\<close>

type_synonym bitboard = "32 word"

text \<open>
  Modelled from the spec: \<open>bit_count\<close> of the missing bitboard.hpp, "Population count
  returns the number of set bits". The result is the C++ \<open>int\<close> the evaluator computes
  with; it lies in \<open>0..32\<close>.
\<close>

definition bit_count :: "bitboard \<Rightarrow> int" where
  "bit_count w = (\<Sum>i\<leftarrow>[0..<32]. if bit w i then 1 else 0)"

text \<open>
  Modelled from the spec: the row masks of the missing bitboard.hpp. Squares are laid out
  row by row, four to a row; rows alternate in offset parity. Rows 0, 2, 4, 6 (squares
  1-4, 9-12, ...) are the even rows.
\<close>

definition EVEN_ROWS :: bitboard where
  "EVEN_ROWS = 0x0F0F0F0F"

definition ODD_ROWS :: bitboard where
  "ODD_ROWS = 0xF0F0F0F0"

text \<open>The first and the last square of every row.\<close>

definition FIRST_COLUMN :: bitboard where
  "FIRST_COLUMN = 0x11111111"

definition LAST_COLUMN :: bitboard where
  "LAST_COLUMN = 0x88888888"

text \<open>
  Modelled from the spec: the named constants of the missing bitboard.hpp.
  \<open>BLACK_KINGS_ROW\<close> is the row where black men crown (squares 29-32),
  \<open>WHITE_KINGS_ROW\<close> its mirror (squares 1-4), \<open>EDGES\<close> the side columns and the top
  and bottom rows.
\<close>

definition BLACK_KINGS_ROW :: bitboard where
  "BLACK_KINGS_ROW = 0xF0000000"

definition WHITE_KINGS_ROW :: bitboard where
  "WHITE_KINGS_ROW = 0x0000000F"

definition EDGES :: bitboard where
  "EDGES = 0xF818181F"

text \<open>
  Modelled from the spec: the four directional shifts of the missing bitboard.hpp. Each
  returns the squares reached from a square of the argument by one diagonal step;
  "forward" is increasing rank (the direction black moves), and squares that would fall
  off the board are dropped. In an even row the square at position \<open>p\<close> stands on
  column \<open>2p + 1\<close>, in an odd row on column \<open>2p\<close>, so that square 1 steps to 5 and 6
  and square 18 to 22 and 23 (scenario S2 of the specification).
\<close>

definition LF :: "bitboard \<Rightarrow> bitboard" where
  "LF b = push_bit 4 (b AND EVEN_ROWS) OR push_bit 3 (b AND ODD_ROWS AND NOT FIRST_COLUMN)"

definition RF :: "bitboard \<Rightarrow> bitboard" where
  "RF b = push_bit 5 (b AND EVEN_ROWS AND NOT LAST_COLUMN) OR push_bit 4 (b AND ODD_ROWS)"

definition LB :: "bitboard \<Rightarrow> bitboard" where
  "LB b = drop_bit 4 (b AND EVEN_ROWS) OR drop_bit 5 (b AND ODD_ROWS AND NOT FIRST_COLUMN)"

definition RB :: "bitboard \<Rightarrow> bitboard" where
  "RB b = drop_bit 3 (b AND EVEN_ROWS AND NOT LAST_COLUMN) OR drop_bit 4 (b AND ODD_ROWS)"

section \<open>Board\<close>

text \<open>
  board.hpp is not among the sources either. The evaluator reads the board through
  \<open>is_black_move\<close>, \<open>get_black_pieces\<close>, \<open>get_white_pieces\<close>, \<open>get_black_kings\<close>,
  \<open>get_white_kings\<close>, \<open>get_black_movers\<close> and \<open>get_white_movers\<close>.
\<close>

datatype player = BLACK | WHITE

text \<open>
  Modelled from the spec: the state of the missing board class, four bitboards
  (black men plus kings, white men plus kings, black kings, white kings) and the side
  to move.
\<close>

record board =
  black_pieces :: bitboard
  white_pieces :: bitboard
  black_kings :: bitboard
  white_kings :: bitboard
  side_to_move :: player

definition is_black_move :: "board \<Rightarrow> bool" where
  "is_black_move b = (side_to_move b = BLACK)"

definition get_black_pieces :: "board \<Rightarrow> bitboard" where
  "get_black_pieces b = black_pieces b"

definition get_white_pieces :: "board \<Rightarrow> bitboard" where
  "get_white_pieces b = white_pieces b"

definition get_black_kings :: "board \<Rightarrow> bitboard" where
  "get_black_kings b = black_kings b"

definition get_white_kings :: "board \<Rightarrow> bitboard" where
  "get_white_kings b = white_kings b"

text \<open>Modelled from the spec: occupied = black | white, empty = ~occupied.\<close>

definition get_not_occupied :: "board \<Rightarrow> bitboard" where
  "get_not_occupied b = NOT (black_pieces b OR white_pieces b)"

text \<open>
  Modelled from the spec: the movers of the missing board class, the pieces with at
  least one immediate non-capture step; men count forward steps only (for white,
  forward is decreasing rank), kings all four directions. A piece can step in a
  direction when it stands on the opposite shift of the empty squares.
\<close>

definition get_black_movers :: "board \<Rightarrow> bitboard" where
  "get_black_movers b =
     (let e = get_not_occupied b in
      (black_pieces b AND (RB e OR LB e)) OR (black_kings b AND (RF e OR LF e)))"

definition get_white_movers :: "board \<Rightarrow> bitboard" where
  "get_white_movers b =
     (let e = get_not_occupied b in
      (white_pieces b AND (RF e OR LF e)) OR (white_kings b AND (RB e OR LB e)))"

section \<open>Evaluator (intelligence\_i.hpp)\<close>

definition evaluate_pieces_strength :: "board \<Rightarrow> int" where
  "evaluate_pieces_strength b =
     (if is_black_move b then
        ((bit_count (get_black_pieces b) - bit_count (get_white_pieces b)) +
         (bit_count (get_black_kings b) - bit_count (get_white_kings b)))
      else
        ((bit_count (get_white_pieces b) - bit_count (get_black_pieces b)) +
         (bit_count (get_white_kings b) - bit_count (get_black_kings b))))"

definition evaluate_movers :: "board \<Rightarrow> int" where
  "evaluate_movers b =
     (if is_black_move b then
        (bit_count (get_black_movers b) - bit_count (get_white_movers b))
      else
        (bit_count (get_white_movers b) - bit_count (get_black_movers b)))"

definition evaluate_kings_row :: "board \<Rightarrow> int" where
  "evaluate_kings_row b =
     (if is_black_move b then
        (bit_count (get_black_pieces b AND WHITE_KINGS_ROW) -
         bit_count (get_white_pieces b AND BLACK_KINGS_ROW))
      else
        (bit_count (get_white_pieces b AND BLACK_KINGS_ROW) -
         bit_count (get_black_pieces b AND WHITE_KINGS_ROW)))"

definition evaluate_edges :: "board \<Rightarrow> int" where
  "evaluate_edges b =
     (if is_black_move b then
        (bit_count (get_black_pieces b AND EDGES) - bit_count (get_white_pieces b AND EDGES))
      else
        (bit_count (get_white_pieces b AND EDGES) - bit_count (get_black_pieces b AND EDGES)))"

definition evaluate :: "board \<Rightarrow> int" where
  "evaluate b =
     evaluate_pieces_strength b * 256 +
     evaluate_movers b * 2 +
     evaluate_kings_row b * 16 +
     evaluate_edges b * 8"

subsection \<open>The features of one side\<close>

text \<open>
  The four features as the specification words them, for one side \<open>p\<close> of a position:
  the value the side to move's term and the opponent's term are instances of.
\<close>

definition opponent :: "player \<Rightarrow> player" where
  "opponent p = (case p of BLACK \<Rightarrow> WHITE | WHITE \<Rightarrow> BLACK)"

definition pieces_of :: "player \<Rightarrow> board \<Rightarrow> bitboard" where
  "pieces_of p b = (case p of BLACK \<Rightarrow> black_pieces b | WHITE \<Rightarrow> white_pieces b)"

definition kings_of :: "player \<Rightarrow> board \<Rightarrow> bitboard" where
  "kings_of p b = (case p of BLACK \<Rightarrow> black_kings b | WHITE \<Rightarrow> white_kings b)"

definition men_of :: "player \<Rightarrow> board \<Rightarrow> bitboard" where
  "men_of p b = pieces_of p b AND NOT (kings_of p b)"

definition strength_feature :: "player \<Rightarrow> board \<Rightarrow> int" where
  "strength_feature p b = bit_count (pieces_of p b) + bit_count (kings_of p b)"

definition movers_feature :: "player \<Rightarrow> board \<Rightarrow> int" where
  "movers_feature p b =
     (case p of BLACK \<Rightarrow> bit_count (get_black_movers b)
              | WHITE \<Rightarrow> bit_count (get_white_movers b))"

definition kings_row_feature :: "player \<Rightarrow> board \<Rightarrow> int" where
  "kings_row_feature p b =
     (case p of BLACK \<Rightarrow> bit_count (black_pieces b AND WHITE_KINGS_ROW)
              | WHITE \<Rightarrow> bit_count (white_pieces b AND BLACK_KINGS_ROW))"

definition edges_feature :: "player \<Rightarrow> board \<Rightarrow> int" where
  "edges_feature p b = bit_count (pieces_of p b AND EDGES)"

text \<open>One point per man and two per king, counted square by square.\<close>

definition material :: "player \<Rightarrow> board \<Rightarrow> int" where
  "material p b = bit_count (men_of p b) + 2 * bit_count (kings_of p b)"

text \<open>The invariant that the kings of each colour are pieces of that colour.\<close>

definition kings_subset :: "board \<Rightarrow> bool" where
  "kings_subset b \<longleftrightarrow>
     black_kings b AND NOT (black_pieces b) = 0 \<and>
     white_kings b AND NOT (white_pieces b) = 0"

section \<open>Search constants (intelligence.hpp)\<close>

text \<open>The limits of the 32-bit \<open>int\<close> the scores are computed in.\<close>

definition INT_MAX :: int where
  "INT_MAX = 2147483647"

definition INT_MIN :: int where
  "INT_MIN = - 2147483648"

definition TIMEOUT :: int where
  "TIMEOUT = INT_MIN"

definition INFINITY :: int where
  "INFINITY = INT_MAX"

definition WIN :: int where
  "WIN = 65535"

section \<open>Moves (move.hpp)\<close>

text \<open>
  The five fields of class \<open>move\<close>: the origin bit, the destination bit, the mask of
  the captured squares and the two flags.
\<close>

record move =
  orig :: bitboard
  dest :: bitboard
  capture :: bitboard
  will_capture_a_king :: bool
  will_crown :: bool

section \<open>Move generator\<close>

text \<open>
  board.cpp, which holds the generator, is not among the sources; this section follows
  section 4.2 of the specification.
\<close>

datatype direction = Left_Forward | Right_Forward | Left_Backward | Right_Backward

fun shift :: "direction \<Rightarrow> bitboard \<Rightarrow> bitboard" where
  "shift Left_Forward b = LF b"
| "shift Right_Forward b = RF b"
| "shift Left_Backward b = LB b"
| "shift Right_Backward b = RB b"

text \<open>
  Modelled from the spec: "A man jumps forward only; a king jumps in all four
  diagonals", and the same for slides. Forward is increasing rank for black and
  decreasing rank for white.
\<close>

definition directions :: "player \<Rightarrow> bool \<Rightarrow> direction list" where
  "directions p king =
     (if king then [Left_Forward, Right_Forward, Left_Backward, Right_Backward]
      else case p of BLACK \<Rightarrow> [Left_Forward, Right_Forward]
                   | WHITE \<Rightarrow> [Left_Backward, Right_Backward])"

definition crowning_row :: "player \<Rightarrow> bitboard" where
  "crowning_row p = (case p of BLACK \<Rightarrow> BLACK_KINGS_ROW | WHITE \<Rightarrow> WHITE_KINGS_ROW)"

text \<open>
  Modelled from the spec: a jump from square \<open>s\<close> over enemy square \<open>e\<close> to empty
  square \<open>d\<close>, the three collinear along one diagonal, one step then one step.
  \<open>jumped\<close> is \<open>e\<close> and \<open>landing\<close> is \<open>d\<close> (each 0 when there is none).
\<close>

definition jumped :: "direction \<Rightarrow> bitboard \<Rightarrow> bitboard \<Rightarrow> bitboard" where
  "jumped d s enemy = shift d s AND enemy"

definition landing :: "direction \<Rightarrow> bitboard \<Rightarrow> bitboard \<Rightarrow> bitboard \<Rightarrow> bitboard" where
  "landing d s enemy vacant = shift d (jumped d s enemy) AND vacant"

definition can_jump :: "direction \<Rightarrow> bitboard \<Rightarrow> bitboard \<Rightarrow> bitboard \<Rightarrow> bool" where
  "can_jump d s enemy vacant \<longleftrightarrow> jumped d s enemy \<noteq> 0 \<and> landing d s enemy vacant \<noteq> 0"

text \<open>
  Modelled from the spec: the multi-jump expansion. From the square \<open>s\<close> the piece
  stands on, with \<open>cap\<close> captured so far, every maximal sequence of jumps is
  enumerated as (final square, capture mask, crowned). The pieces jumped earlier are
  removed from \<open>enemy\<close> and their squares are vacant for the rest of the sequence; a
  man that lands on its crowning row (\<open>crown\<close>, 0 for a king) ends the sequence there.
  Every jump removes an enemy piece, which is why the enumeration ends.
\<close>

function jump_sequences ::
  "direction list \<Rightarrow> bitboard \<Rightarrow> bitboard \<Rightarrow> bitboard \<Rightarrow> bitboard \<Rightarrow> bitboard \<Rightarrow>
   (bitboard \<times> bitboard \<times> bool) list" where
  "jump_sequences ds crown enemy vacant s cap =
     (if filter (\<lambda>d. can_jump d s enemy vacant) ds = [] then [(s, cap, False)]
      else concat (map (\<lambda>d.
             if landing d s enemy vacant AND crown \<noteq> 0
             then [(landing d s enemy vacant, cap OR jumped d s enemy, True)]
             else jump_sequences ds crown (enemy AND NOT (jumped d s enemy))
                    (vacant OR jumped d s enemy) (landing d s enemy vacant)
                    (cap OR jumped d s enemy))
           (filter (\<lambda>d. can_jump d s enemy vacant) ds)))"
  by pat_completeness auto
termination
proof (relation "measure (\<lambda>(ds, crown, enemy, vacant, s, cap). unat enemy)")
  show "wf (measure (\<lambda>(ds, crown, enemy, vacant, s, cap). unat enemy))"
    by simp
next
  fix ds :: "direction list" and crown enemy vacant s cap :: bitboard and d
  assume "d \<in> set (filter (\<lambda>d. can_jump d s enemy vacant) ds)"
  then have ne: "jumped d s enemy \<noteq> 0"
    by (simp add: can_jump_def)
  let ?e = "jumped d s enemy"
  have "enemy AND NOT ?e \<noteq> enemy"
  proof
    assume eq: "enemy AND NOT ?e = enemy"
    have "?e = ?e AND enemy" by (simp add: jumped_def ac_simps)
    also have "\<dots> = ?e AND (enemy AND NOT ?e)" using eq by simp
    also have "\<dots> = 0" by (simp add: ac_simps)
    finally show False using ne by simp
  qed
  moreover have "enemy AND NOT ?e \<le> enemy"
    by (rule word_and_le2)
  ultimately have "enemy AND NOT ?e < enemy" by simp
  then show "((ds, crown, enemy AND NOT ?e, vacant OR ?e, landing d s enemy vacant, cap OR ?e),
              (ds, crown, enemy, vacant, s, cap))
             \<in> measure (\<lambda>(ds, crown, enemy, vacant, s, cap). unat enemy)"
    by (simp add: word_less_nat_alt)
qed

declare jump_sequences.simps [simp del]

text \<open>The 32 squares, each as the bitboard of its one bit, in the order 1 to 32.\<close>

definition squares :: "bitboard list" where
  "squares =
     [0x1, 0x2, 0x4, 0x8, 0x10, 0x20, 0x40, 0x80,
      0x100, 0x200, 0x400, 0x800, 0x1000, 0x2000, 0x4000, 0x8000,
      0x10000, 0x20000, 0x40000, 0x80000, 0x100000, 0x200000, 0x400000, 0x800000,
      0x1000000, 0x2000000, 0x4000000, 0x8000000,
      0x10000000, 0x20000000, 0x40000000, 0x80000000]"

definition pieces_to_move :: "board \<Rightarrow> bitboard list" where
  "pieces_to_move b = filter (\<lambda>s. s AND pieces_of (side_to_move b) b \<noteq> 0) squares"

text \<open>
  Modelled from the spec: phase J for the piece on square \<open>s\<close>. A piece with no
  immediate jump is no jumper and yields nothing; a jumper yields one move per maximal
  sequence, from its square to the final square, with the union of the jumped squares
  as capture mask. During the sequence the origin square is vacant. The captured-a-king
  flag is set when a square of the capture mask held an enemy king before the move.
\<close>

definition piece_jumps :: "board \<Rightarrow> bitboard \<Rightarrow> move list" where
  "piece_jumps b s =
     (let p = side_to_move b;
          king = (s AND kings_of p b \<noteq> 0);
          ds = directions p king;
          crown = (if king then 0 else crowning_row p);
          enemy = pieces_of (opponent p) b;
          vacant = get_not_occupied b OR s
      in if filter (\<lambda>d. can_jump d s enemy vacant) ds = [] then []
         else map (\<lambda>(t, cap, crowned).
                \<lparr>orig = s, dest = t, capture = cap,
                 will_capture_a_king = (cap AND kings_of (opponent p) b \<noteq> 0),
                 will_crown = crowned\<rparr>)
              (jump_sequences ds crown enemy vacant s 0))"

text \<open>
  Modelled from the spec: phase S for the piece on square \<open>s\<close>, its one-step moves to
  empty squares; will-crown is set iff a man lands on its crowning row.
\<close>

definition piece_slides :: "board \<Rightarrow> bitboard \<Rightarrow> move list" where
  "piece_slides b s =
     (let p = side_to_move b;
          king = (s AND kings_of p b \<noteq> 0);
          vacant = get_not_occupied b
      in map (\<lambda>d.
            \<lparr>orig = s, dest = shift d s AND vacant, capture = 0,
             will_capture_a_king = False,
             will_crown = (\<not> king \<and> shift d s AND crowning_row p \<noteq> 0)\<rparr>)
          (filter (\<lambda>d. shift d s AND vacant \<noteq> 0) (directions p king)))"

definition generate_jumps :: "board \<Rightarrow> move list" where
  "generate_jumps b = concat (map (piece_jumps b) (pieces_to_move b))"

definition generate_slides :: "board \<Rightarrow> move list" where
  "generate_slides b = concat (map (piece_slides b) (pieces_to_move b))"

text \<open>
  Modelled from the spec: the legal-move generator. Phase S is "executed only if Phase J
  produced nothing".
\<close>

definition generate_moves :: "board \<Rightarrow> move list" where
  "generate_moves b =
     (let jumps = generate_jumps b in if jumps \<noteq> [] then jumps else generate_slides b)"

text \<open>
  The legal jump of the specification: \<open>s\<close> is a square holding a piece of the moving
  side, \<open>e\<close> the square one step along a diagonal open to that piece, holding an enemy
  piece, and \<open>d\<close> the square one step further, empty.
\<close>

definition legal_jump :: "board \<Rightarrow> bitboard \<Rightarrow> bitboard \<Rightarrow> bitboard \<Rightarrow> bool" where
  "legal_jump b s e d \<longleftrightarrow>
     s \<in> set (pieces_to_move b) \<and>
     list_ex (\<lambda>dir.
         e = shift dir s AND pieces_of (opponent (side_to_move b)) b \<and> e \<noteq> 0 \<and>
         d = shift dir e AND get_not_occupied b \<and> d \<noteq> 0)
       (directions (side_to_move b) (s AND kings_of (side_to_move b) b \<noteq> 0))"

definition is_jump :: "move \<Rightarrow> bool" where
  "is_jump m \<longleftrightarrow> capture m \<noteq> 0"

definition is_slide :: "move \<Rightarrow> bool" where
  "is_slide m \<longleftrightarrow> capture m = 0"

section \<open>Engine facade\<close>

text \<open>
  engine.cpp is not among the sources; engine.hpp declares \<open>result\<close>.

  Modelled from the spec: the end of a game as the engine sees it. "If a side has no
  legal moves after a move is played, print the RESULT line for the opposite side
  winning"; "the core does not detect draws". The value is the line printed, \<open>None\<close>
  when the game goes on. It is a function of the position alone: neither the history
  nor the number of plies played enters it.
\<close>

definition result :: "board \<Rightarrow> string option" where
  "result b =
     (if generate_moves b = [] then
        Some (case side_to_move b of
                BLACK \<Rightarrow> ''RESULT 1-0 {White wins}''
              | WHITE \<Rightarrow> ''RESULT 0-1 {Black wins}'')
      else None)"

section \<open>Search driver\<close>

text \<open>
  intelligence.cpp, which holds \<open>think\<close> and \<open>alpha_beta_search\<close>, is not among the
  sources; intelligence.hpp declares them and the static search state.
\<close>

text \<open>
  The static state of class \<open>intelligence\<close> that \<open>think\<close> writes: \<open>_best_moves\<close> and
  \<open>_reorder\<close>, and the progress lines given to the sink (depth, score, best line).
\<close>

record searcher =
  best_moves :: "move list"
  reorder :: bool
  shown :: "(nat \<times> int \<times> move list) list"

text \<open>
  One call of \<open>alpha_beta_search\<close> at the root: from the depth and the static state (it
  reads the previous best line when the reorder flag is set) to the value it returns,
  \<open>TIMEOUT\<close> when the deadline passed during the search, and the line it left in the
  caller's buffer, which is a partial result when the search timed out. The search
  itself is a parameter of the driver.
\<close>

type_synonym root_search = "nat \<Rightarrow> searcher \<Rightarrow> int \<times> move list"

text \<open>
  Modelled from the spec: the iterative-deepening loop of the missing \<open>think\<close>.
  "Runs iterative deepening from depth 1 up to depth\_limit"; "on timeout the current
  iteration is abandoned and the most recent fully completed iteration's best line is
  returned"; "between iterations, records the previous root best-move" and sets the
  reorder flag; "after each completed iteration, invokes the progress sink".
  \<open>deepening ab n i st\<close> runs the \<open>n\<close> iterations from depth \<open>i\<close> on.
\<close>

fun deepening :: "root_search \<Rightarrow> nat \<Rightarrow> nat \<Rightarrow> searcher \<Rightarrow> searcher" where
  "deepening ab 0 i st = st"
| "deepening ab (Suc n) i st =
     (case ab i st of
        (val, line) \<Rightarrow>
          if val = TIMEOUT then st
          else deepening ab n (Suc i)
                 (st\<lparr>best_moves := line, reorder := True, shown := shown st @ [(i, val, line)]\<rparr>))"

definition think_start :: searcher where
  "think_start = \<lparr>best_moves = [], reorder = False, shown = []\<rparr>"

definition think_run :: "root_search \<Rightarrow> int \<Rightarrow> searcher" where
  "think_run ab depth_limit = deepening ab (nat depth_limit) 1 think_start"

definition think :: "root_search \<Rightarrow> int \<Rightarrow> move list" where
  "think ab depth_limit = best_moves (think_run ab depth_limit)"

text \<open>
  The iterations one by one, for stating what \<open>think\<close> returns: the state after the
  first \<open>k\<close> iterations when each of them ran to completion, and whether iteration
  \<open>k\<close>, started from the state its predecessors left, runs to completion.
\<close>

fun after_iterations :: "root_search \<Rightarrow> nat \<Rightarrow> searcher" where
  "after_iterations ab 0 = think_start"
| "after_iterations ab (Suc k) =
     (let st = after_iterations ab k in
      st\<lparr>best_moves := snd (ab (Suc k) st), reorder := True,
         shown := shown st @ [(Suc k, fst (ab (Suc k) st), snd (ab (Suc k) st))]\<rparr>)"

definition completes :: "root_search \<Rightarrow> nat \<Rightarrow> bool" where
  "completes ab k \<longleftrightarrow> fst (ab k (after_iterations ab (k - 1))) \<noteq> TIMEOUT"

text \<open>
  An instance: a search that completes at depths 1 and 2, leaving the lines 9-13 and
  9-14, and times out at depth 3 and beyond, leaving the partial line 10-14.
\<close>

definition two_then_timeout :: root_search where
  "two_then_timeout i st =
     (if i = 1 then (0, [\<lparr>orig = 0x100, dest = 0x1000, capture = 0,
                          will_capture_a_king = False, will_crown = False\<rparr>])
      else if i = 2 then (4, [\<lparr>orig = 0x100, dest = 0x2000, capture = 0,
                          will_capture_a_king = False, will_crown = False\<rparr>])
      else (TIMEOUT, [\<lparr>orig = 0x200, dest = 0x2000, capture = 0,
                          will_capture_a_king = False, will_crown = False\<rparr>]))"

section \<open>Match runner (runer.cpp)\<close>

text \<open>
  The C library's \<open>strtol(s, NULL, 10)\<close>: leading white space is skipped, an optional
  sign is read, then the longest run of decimal digits; no digits give 0, and a value
  outside the range of \<open>long\<close> (64 bits) is clamped to its limits.
\<close>

definition isspace :: "char \<Rightarrow> bool" where
  "isspace c = (c \<in> set [CHR '' '', CHR 0x09, CHR 0x0A, CHR 0x0B, CHR 0x0C, CHR 0x0D])"

definition isdigit :: "char \<Rightarrow> bool" where
  "isdigit c = (48 \<le> (of_char c :: nat) \<and> (of_char c :: nat) \<le> 57)"

fun strtol_digits :: "int \<Rightarrow> string \<Rightarrow> int" where
  "strtol_digits acc [] = acc"
| "strtol_digits acc (c # cs) =
     (if isdigit c then strtol_digits (acc * 10 + (of_char c - 48)) cs else acc)"

definition LONG_MAX :: int where
  "LONG_MAX = 9223372036854775807"

definition LONG_MIN :: int where
  "LONG_MIN = - 9223372036854775808"

definition strtol :: "string \<Rightarrow> int" where
  "strtol s =
     (let t = dropWhile isspace s;
          v = (case t of
                 [] \<Rightarrow> 0
               | c # r \<Rightarrow>
                   if c = CHR ''-'' then - strtol_digits 0 r
                   else if c = CHR ''+'' then strtol_digits 0 r
                   else strtol_digits 0 t)
      in max LONG_MIN (min LONG_MAX v))"

text \<open>
  The assignment \<open>depth = ::strtol(...)\<close> narrows the \<open>long\<close> to the 32-bit \<open>int\<close>
  \<open>depth\<close>: the low 32 bits, read as two's complement.
\<close>

definition long_to_int :: "int \<Rightarrow> int" where
  "long_to_int l = sint (word_of_int l :: 32 word)"

record runner_args =
  black :: string
  white :: string
  depth :: int

text \<open>
  The argument loop of \<open>main\<close> over \<open>argv[1..]\<close>. \<open>Inl c\<close> is \<open>exit(c)\<close>. An option
  that is the last argument has no value and is skipped.
\<close>

fun parse_args :: "runner_args \<Rightarrow> string list \<Rightarrow> int + runner_args" where
  "parse_args a [] = Inr a"
| "parse_args a [x] = Inr a"
| "parse_args a (x # v # rest) =
     (if x = ''--black'' then parse_args (a\<lparr>black := v\<rparr>) rest
      else if x = ''--white'' then parse_args (a\<lparr>white := v\<rparr>) rest
      else if x = ''--depth'' then
        (let d = long_to_int (strtol v) in
         if d < 0 \<or> d > 999 then Inl 255
         else parse_args (a\<lparr>depth := d\<rparr>) rest)
      else parse_args a (v # rest))"

text \<open>
  The start of \<open>main\<close>: the defaults, the argument loop, and the check that both
  programs were named.
\<close>

definition runner_setup :: "string list \<Rightarrow> int + runner_args" where
  "runner_setup args =
     (case parse_args \<lparr>black = [], white = [], depth = 1\<rparr> args of
        Inl c \<Rightarrow> Inl c
      | Inr a \<Rightarrow> if black a = [] \<or> white a = [] then Inl 255 else Inr a)"


text \<open>\<open>UNLIMITED\<close> of engine.hpp, the engine's value for "no depth limit".\<close>

definition UNLIMITED :: int where
  "UNLIMITED = 999999"

subsection \<open>The relay loop\<close>

text \<open>
  The variables of the loop that outlive an iteration: the move counter and what has
  been written to the three streams, the runner's own output \<open>io\<close> and the pipes to
  the two engines. Every write of the loop ends with a newline, so a stream is the list
  of the lines written to it.
\<close>

record runner =
  moves :: int
  io :: "string list"
  io_black :: "string list"
  io_white :: "string list"

definition moves_limit :: int where
  "moves_limit = 299"

text \<open>\<open>return c\<close> from \<open>main\<close>, or \<open>exit(255)\<close> from its handler, against going on.\<close>

datatype outcome = Running runner | Exit int runner

text \<open>
  \<open>line.substr(5, 4)\<close>: the characters from offset 5, at most four of them;
  \<open>std::out_of_range\<close> (here \<open>None\<close>) when the line is shorter than five characters.
\<close>

definition substr_5_4 :: "string \<Rightarrow> string option" where
  "substr_5_4 line = (if 5 > length line then None else Some (take 4 (drop 5 line)))"

text \<open>Decimal output of the depth, as \<open>operator<<\<close> prints a non-negative \<open>int\<close>.\<close>

fun decimal :: "nat \<Rightarrow> string" where
  "decimal n =
     (if n < 10 then [''0123456789'' ! n] else decimal (n div 10) @ [''0123456789'' ! (n mod 10)])"

definition runner_start :: "int \<Rightarrow> runner" where
  "runner_start d =
     \<lparr>moves = 0, io = [],
      io_black = [''st 999'', ''sd '' @ decimal (nat d), ''go''],
      io_white = [''st 999'', ''sd '' @ decimal (nat d)]\<rparr>"

text \<open>
  The switch on a non-empty line of the black engine. An exception thrown by \<open>substr\<close>
  is caught by the handler of \<open>main\<close>, which exits with code 255.
\<close>

definition on_line_black :: "runner \<Rightarrow> string \<Rightarrow> outcome" where
  "on_line_black r line_black =
     (if line_black = [] then Running r
      else if hd line_black = CHR ''m'' then
        (case substr_5_4 line_black of
           None \<Rightarrow> Exit 255 r
         | Some move \<Rightarrow>
             (let r1 = r\<lparr>io := io r @ [''Black move '' @ move],
                         io_white := io_white r @ [move],
                         moves := moves r + 1\<rparr>
              in if moves r1 > moves_limit
                 then Exit 0 (r1\<lparr>io := io r1 @ [''RESULT 1/2-1/2 {Draw}'']\<rparr>)
                 else Running r1))
      else if hd line_black = CHR ''R'' then Exit 0 (r\<lparr>io := io r @ [line_black]\<rparr>)
      else if hd line_black = CHR ''E'' then
        Exit 255 (r\<lparr>io := io r @ [''Black '' @ line_black]\<rparr>)
      else if hd line_black = CHR '' '' then Running r
      else Running (r\<lparr>io := io r @ [''Black '' @ line_black]\<rparr>))"

text \<open>
  The switch on a non-empty line of the white engine. Its error and default branches
  print \<open>line_black\<close>, and its default branch returns 255, as the source has them.
\<close>

definition on_line_white :: "runner \<Rightarrow> string \<Rightarrow> string \<Rightarrow> outcome" where
  "on_line_white r line_black line_white =
     (if line_white = [] then Running r
      else if hd line_white = CHR ''m'' then
        (case substr_5_4 line_white of
           None \<Rightarrow> Exit 255 r
         | Some move \<Rightarrow>
             (let r1 = r\<lparr>io := io r @ [''White move '' @ move],
                         io_black := io_black r @ [move],
                         moves := moves r + 1\<rparr>
              in if moves r1 > moves_limit
                 then Exit 0 (r1\<lparr>io := io r1 @ [''RESULT 1/2-1/2 {Draw}'']\<rparr>)
                 else Running r1))
      else if hd line_white = CHR ''R'' then Exit 0 (r\<lparr>io := io r @ [line_white]\<rparr>)
      else if hd line_white = CHR ''E'' then
        Exit 255 (r\<lparr>io := io r @ [''White '' @ line_black]\<rparr>)
      else if hd line_white = CHR '' '' then Running r
      else Exit 255 (r\<lparr>io := io r @ [''White '' @ line_black]\<rparr>))"

text \<open>
  The \<open>for (;;)\<close> loop over the pairs of lines the polling loop delivers, one pair per
  iteration (a pair of two empty lines is polled again and changes nothing). The list
  is what the engines have sent so far; \<open>Running\<close> at its end is the runner waiting.
\<close>

fun relay :: "runner \<Rightarrow> (string \<times> string) list \<Rightarrow> outcome" where
  "relay r [] = Running r"
| "relay r ((line_black, line_white) # rest) =
     (case on_line_black r line_black of
        Exit c r1 \<Rightarrow> Exit c r1
      | Running r1 \<Rightarrow>
          (case on_line_white r1 line_black line_white of
             Exit c r2 \<Rightarrow> Exit c r2
           | Running r2 \<Rightarrow> relay r2 rest))"

fun final :: "outcome \<Rightarrow> runner" where
  "final (Running r) = r"
| "final (Exit c r) = r"

text \<open>
  The runner has declared a draw: it has returned 0 and the last line it printed is the
  draw result.
\<close>

definition draw_declared :: "outcome \<Rightarrow> bool" where
  "draw_declared out =
     (case out of
        Running r \<Rightarrow> False
      | Exit c r \<Rightarrow> c = 0 \<and> io r \<noteq> [] \<and> last (io r) = ''RESULT 1/2-1/2 {Draw}'')"

text \<open>The moves relayed so far: every line sent to an engine after the set-up commands.\<close>

definition relayed :: "runner \<Rightarrow> int" where
  "relayed r = int (length (io_black r) - 3) + int (length (io_white r) - 2)"

text \<open>
  The lines of an engine as the switch sorts them. A move line starts with \<open>m\<close> and is
  long enough for \<open>substr(5, 4)\<close>. A line stops the match for another reason than the
  cap when it is a result line, an error line or a move line that is too short; from
  the white engine every other line that does not start with a space stops it as well.
\<close>

definition move_line :: "string \<Rightarrow> bool" where
  "move_line l \<longleftrightarrow> l \<noteq> [] \<and> hd l = CHR ''m'' \<and> 5 \<le> length l"

definition stops_black :: "string \<Rightarrow> bool" where
  "stops_black l \<longleftrightarrow>
     l \<noteq> [] \<and> (hd l = CHR ''R'' \<or> hd l = CHR ''E'' \<or> (hd l = CHR ''m'' \<and> length l < 5))"

definition stops_white :: "string \<Rightarrow> bool" where
  "stops_white l \<longleftrightarrow> l \<noteq> [] \<and> hd l \<noteq> CHR '' '' \<and> \<not> move_line l"

definition uninterrupted :: "(string \<times> string) list \<Rightarrow> bool" where
  "uninterrupted ls = list_all (\<lambda>(line_black, line_white).
     \<not> stops_black line_black \<and> \<not> stops_white line_white) ls"

text \<open>The move lines the two engines have sent, black's and white's alike.\<close>

fun moves_received :: "(string \<times> string) list \<Rightarrow> nat" where
  "moves_received [] = 0"
| "moves_received ((line_black, line_white) # rest) =
     (if move_line line_black then 1 else 0) + (if move_line line_white then 1 else 0) +
     moves_received rest"

section \<open>Properties of the evaluator\<close>

lemma bit_count_split:
  assumes "k AND NOT p = 0"
  shows "bit_count p = bit_count (p AND NOT k) + bit_count k"
proof -
  have sub: "bit k i \<Longrightarrow> bit p i" for i
  proof -
    assume "bit k i"
    show "bit p i"
    proof (rule ccontr)
      assume "\<not> bit p i"
      with \<open>bit k i\<close> have "bit (k AND NOT p) i"
        using bit_imp_le_length [of k i] by (simp add: bit_and_iff bit_not_iff)
      with assms show False by simp
    qed
  qed
  have "(if bit p i then 1 else 0) =
        (if bit (p AND NOT k) i then 1 else 0) + (if bit k i then 1 else (0::int))" for i
    using sub [of i] bit_imp_le_length [of p i] by (auto simp: bit_and_iff bit_not_iff)
  then have "(\<Sum>i\<leftarrow>[0..<32]. if bit p i then 1 else (0::int)) =
        (\<Sum>i\<leftarrow>[0..<32]. (if bit (p AND NOT k) i then 1 else 0) + (if bit k i then 1 else 0))"
    by simp
  then show ?thesis
    unfolding bit_count_def by (simp only: sum_list_addf)
qed

lemma material_strength:
  assumes "kings_of p b AND NOT (pieces_of p b) = 0"
  shows "strength_feature p b = material p b"
  using bit_count_split [OF assms]
  by (simp add: strength_feature_def material_def men_of_def)

lemma bit_count_range: "0 \<le> bit_count w \<and> bit_count w \<le> 32"
proof -
  have "0 \<le> (\<Sum>i\<leftarrow>xs. if bit w i then 1 else (0::int)) \<and>
        (\<Sum>i\<leftarrow>xs. if bit w i then 1 else (0::int)) \<le> int (length xs)" for xs
    by (induction xs) auto
  from this [of "[0..<32]"] show ?thesis
    by (simp add: bit_count_def)
qed

text \<open>
  The evaluation is computed in C++ \<open>int\<close>; it stays far from the limits of that type,
  so the unbounded integers of the model compute what the machine computes.
\<close>

lemma evaluate_fits_int: "\<bar>evaluate b\<bar> \<le> 17216"
proof -
  have "\<bar>evaluate_pieces_strength b\<bar> \<le> 64"
    using bit_count_range [of "get_black_pieces b"] bit_count_range [of "get_white_pieces b"]
      bit_count_range [of "get_black_kings b"] bit_count_range [of "get_white_kings b"]
    by (auto simp: evaluate_pieces_strength_def)
  moreover have "\<bar>evaluate_movers b\<bar> \<le> 32"
    using bit_count_range [of "get_black_movers b"] bit_count_range [of "get_white_movers b"]
    by (auto simp: evaluate_movers_def)
  moreover have "\<bar>evaluate_kings_row b\<bar> \<le> 32"
    using bit_count_range [of "get_black_pieces b AND WHITE_KINGS_ROW"]
      bit_count_range [of "get_white_pieces b AND BLACK_KINGS_ROW"]
    by (auto simp: evaluate_kings_row_def)
  moreover have "\<bar>evaluate_edges b\<bar> \<le> 32"
    using bit_count_range [of "get_black_pieces b AND EDGES"]
      bit_count_range [of "get_white_pieces b AND EDGES"]
    by (auto simp: evaluate_edges_def)
  ultimately show ?thesis
    unfolding evaluate_def by linarith
qed

text \<open>
  C3. On every board, \<open>evaluate\<close> is pieces\_strength * 256 + movers * 2 +
  kings\_row * 16 + edges * 8, and each of the four features is the value of the side to
  move minus the value of the opposing side.
\<close>

theorem evaluate_weighted_sum:
  "evaluate b =
     evaluate_pieces_strength b * 256 + evaluate_movers b * 2 +
     evaluate_kings_row b * 16 + evaluate_edges b * 8 \<and>
   evaluate_pieces_strength b =
     strength_feature (side_to_move b) b - strength_feature (opponent (side_to_move b)) b \<and>
   evaluate_movers b =
     movers_feature (side_to_move b) b - movers_feature (opponent (side_to_move b)) b \<and>
   evaluate_kings_row b =
     kings_row_feature (side_to_move b) b - kings_row_feature (opponent (side_to_move b)) b \<and>
   evaluate_edges b =
     edges_feature (side_to_move b) b - edges_feature (opponent (side_to_move b)) b"
proof (cases "side_to_move b")
  case BLACK
  then show ?thesis
    by (simp add: evaluate_def evaluate_pieces_strength_def evaluate_movers_def
        evaluate_kings_row_def evaluate_edges_def is_black_move_def opponent_def
        strength_feature_def movers_feature_def kings_row_feature_def edges_feature_def
        pieces_of_def kings_of_def get_black_pieces_def get_white_pieces_def
        get_black_kings_def get_white_kings_def)
next
  case WHITE
  then show ?thesis
    by (simp add: evaluate_def evaluate_pieces_strength_def evaluate_movers_def
        evaluate_kings_row_def evaluate_edges_def is_black_move_def opponent_def
        strength_feature_def movers_feature_def kings_row_feature_def edges_feature_def
        pieces_of_def kings_of_def get_black_pieces_def get_white_pieces_def
        get_black_kings_def get_white_kings_def)
qed

text \<open>
  C4. On every board whose kings are pieces of their own colour, the pieces-strength
  feature scores one point per man and two per king for each side: it is the own piece
  count minus the opponent's piece count, plus the own king count minus the opponent's
  king count, seen from the side to move.
\<close>

theorem pieces_strength_one_per_man_two_per_king:
  assumes "kings_subset b"
  shows "evaluate_pieces_strength b =
           material (side_to_move b) b - material (opponent (side_to_move b)) b \<and>
         evaluate_pieces_strength b =
           (bit_count (pieces_of (side_to_move b) b) -
            bit_count (pieces_of (opponent (side_to_move b)) b)) +
           (bit_count (kings_of (side_to_move b) b) -
            bit_count (kings_of (opponent (side_to_move b)) b))"
proof -
  have k: "kings_of p b AND NOT (pieces_of p b) = 0" for p
    using assms by (cases p) (simp_all add: kings_subset_def kings_of_def pieces_of_def)
  have m: "material p b = bit_count (pieces_of p b) + bit_count (kings_of p b)" for p
    using material_strength [OF k [of p]] by (simp add: strength_feature_def)
  show ?thesis
    by (cases "side_to_move b")
      (simp_all add: m evaluate_pieces_strength_def is_black_move_def opponent_def
        pieces_of_def kings_of_def get_black_pieces_def get_white_pieces_def
        get_black_kings_def get_white_kings_def)
qed

text \<open>
  An instance: black men on squares 1 and 2, a black king on square 3, a white man on
  square 30 and a white king on square 31, black to move.
\<close>

theorem pieces_strength_one_per_man_two_per_king_witness:
  "kings_subset \<lparr>black_pieces = 7, white_pieces = 0x60000000, black_kings = 4,
       white_kings = 0x40000000, side_to_move = BLACK\<rparr> \<and>
   evaluate_pieces_strength \<lparr>black_pieces = 7, white_pieces = 0x60000000, black_kings = 4,
       white_kings = 0x40000000, side_to_move = BLACK\<rparr> =
     material BLACK \<lparr>black_pieces = 7, white_pieces = 0x60000000, black_kings = 4,
       white_kings = 0x40000000, side_to_move = BLACK\<rparr> -
     material WHITE \<lparr>black_pieces = 7, white_pieces = 0x60000000, black_kings = 4,
       white_kings = 0x40000000, side_to_move = BLACK\<rparr>"
proof -
  have h: "kings_subset \<lparr>black_pieces = 7, white_pieces = 0x60000000, black_kings = 4,
       white_kings = 0x40000000, side_to_move = BLACK\<rparr>"
    by (simp add: kings_subset_def)
  from pieces_strength_one_per_man_two_per_king [OF h] h show ?thesis
    by (simp add: opponent_def)
qed

text \<open>
  C7. The material component is antisymmetric in the side to move: on any placement of
  the pieces, the pieces-strength feature with black to move is the negation of the
  pieces-strength feature with white to move.
\<close>

theorem pieces_strength_antisymmetric:
  "evaluate_pieces_strength (b\<lparr>side_to_move := BLACK\<rparr>) =
   - evaluate_pieces_strength (b\<lparr>side_to_move := WHITE\<rparr>)"
  by (simp add: evaluate_pieces_strength_def is_black_move_def get_black_pieces_def
      get_white_pieces_def get_black_kings_def get_white_kings_def)

text \<open>
  C6. INFINITY is the INT\_MAX ceiling, WIN is 65535, and TIMEOUT lies outside the score
  range: no score between -INFINITY and INFINITY equals TIMEOUT.
\<close>

theorem timeout_outside_score_range:
  "INFINITY = INT_MAX \<and> WIN = 65535 \<and>
   (\<forall>s. - INFINITY \<le> s \<and> s \<le> INFINITY \<longrightarrow> s \<noteq> TIMEOUT)"
  by (simp add: INFINITY_def INT_MAX_def WIN_def TIMEOUT_def INT_MIN_def)

theorem timeout_outside_score_range_witness:
  "- INFINITY \<le> - WIN \<and> - WIN \<le> INFINITY \<and> - WIN \<noteq> TIMEOUT"
  using timeout_outside_score_range
  by (simp add: INFINITY_def INT_MAX_def WIN_def)

section \<open>Properties of the match runner\<close>

lemma parse_args_depth:
  "parse_args a args = Inr a' \<Longrightarrow> 0 \<le> depth a \<and> depth a \<le> 999 \<Longrightarrow>
   0 \<le> depth a' \<and> depth a' \<le> 999"
proof (induction a args rule: parse_args.induct)
  case (1 a)
  then show ?case by simp
next
  case (2 a x)
  then show ?case by simp
next
  case (3 a x v rest)
  then show ?case
    by (auto simp: Let_def split: if_splits)
qed

text \<open>
  C8, as amended. Every depth the runner accepts lies between 0 and 999 inclusive: a
  \<open>--depth\<close> value that reads, as an \<open>int\<close>, below 0 or above 999 makes the runner
  exit with code 255, and the engine's "unlimited" sentinel is the finite integer
  999999. (The lower bound of the check is 0, not 1.)
\<close>

theorem accepted_depth_range:
  "(runner_setup args = Inr a \<longrightarrow> 0 \<le> depth a \<and> depth a \<le> 999) \<and>
   (long_to_int (strtol v) < 0 \<or> long_to_int (strtol v) > 999 \<longrightarrow>
      parse_args a0 (''--depth'' # v # rest) = Inl 255) \<and>
   UNLIMITED = 999999"
proof -
  have "0 \<le> depth a \<and> depth a \<le> 999" if "runner_setup args = Inr a"
  proof -
    from that have "parse_args \<lparr>black = [], white = [], depth = 1\<rparr> args = Inr a"
      by (auto simp: runner_setup_def split: sum.splits if_splits)
    from parse_args_depth [OF this] show ?thesis by simp
  qed
  then show ?thesis
    by (simp add: UNLIMITED_def)
qed

theorem accepted_depth_range_witness:
  "runner_setup [''--black'', ''b'', ''--white'', ''w'', ''--depth'', ''7''] =
     Inr \<lparr>black = ''b'', white = ''w'', depth = 7\<rparr> \<and>
   0 \<le> depth \<lparr>black = ''b'', white = ''w'', depth = 7\<rparr> \<and>
   depth \<lparr>black = ''b'', white = ''w'', depth = 7\<rparr> \<le> 999 \<and>
   long_to_int (strtol ''1000'') > 999 \<and>
   parse_args \<lparr>black = [], white = [], depth = 1\<rparr> [''--depth'', ''1000''] = Inl 255"
proof -
  have h: "runner_setup [''--black'', ''b'', ''--white'', ''w'', ''--depth'', ''7''] =
     Inr \<lparr>black = ''b'', white = ''w'', depth = 7\<rparr>"
    by (simp add: runner_setup_def strtol_def isspace_def isdigit_def long_to_int_def
        LONG_MAX_def LONG_MIN_def)
  have g: "long_to_int (strtol ''1000'') > 999"
    by (simp add: strtol_def isspace_def isdigit_def long_to_int_def LONG_MAX_def LONG_MIN_def)
  from accepted_depth_range [of "[''--black'', ''b'', ''--white'', ''w'', ''--depth'', ''7'']"
      "\<lparr>black = ''b'', white = ''w'', depth = 7\<rparr>" "''1000''"
      "\<lparr>black = [], white = [], depth = 1\<rparr>" "[]"] h g
  show ?thesis by blast
qed

text \<open>
  C8 as stated fails: \<open>--depth 0\<close> is accepted, and 0 is not between 1 and 999.
\<close>

theorem depth_zero_accepted:
  "runner_setup [''--black'', ''b'', ''--white'', ''w'', ''--depth'', ''0''] =
     Inr \<lparr>black = ''b'', white = ''w'', depth = 0\<rparr> \<and>
   \<not> (1 \<le> depth \<lparr>black = ''b'', white = ''w'', depth = 0\<rparr>)"
  by (simp add: runner_setup_def strtol_def isspace_def isdigit_def long_to_int_def
      LONG_MAX_def LONG_MIN_def)

text \<open>The invariant of the relay loop.\<close>

lemma on_line_black_inv:
  assumes "moves r \<le> moves_limit" "relayed r = moves r" "3 \<le> length (io_black r)"
    "2 \<le> length (io_white r)"
  shows "relayed (final (on_line_black r l)) = moves (final (on_line_black r l)) \<and>
         3 \<le> length (io_black (final (on_line_black r l))) \<and>
         2 \<le> length (io_white (final (on_line_black r l))) \<and>
         (case on_line_black r l of
            Running r' \<Rightarrow> moves r' \<le> moves_limit
          | Exit c r' \<Rightarrow> moves r' \<le> moves_limit \<or>
              (moves r' = moves_limit + 1 \<and> draw_declared (Exit c r')))"
  using assms
  by (auto simp: on_line_black_def Let_def relayed_def draw_declared_def
      split: option.splits)

lemma on_line_white_inv:
  assumes "moves r \<le> moves_limit" "relayed r = moves r" "3 \<le> length (io_black r)"
    "2 \<le> length (io_white r)"
  shows "relayed (final (on_line_white r k l)) = moves (final (on_line_white r k l)) \<and>
         3 \<le> length (io_black (final (on_line_white r k l))) \<and>
         2 \<le> length (io_white (final (on_line_white r k l))) \<and>
         (case on_line_white r k l of
            Running r' \<Rightarrow> moves r' \<le> moves_limit
          | Exit c r' \<Rightarrow> moves r' \<le> moves_limit \<or>
              (moves r' = moves_limit + 1 \<and> draw_declared (Exit c r')))"
  using assms
  by (auto simp: on_line_white_def Let_def relayed_def draw_declared_def
      split: option.splits)

lemma relay_inv:
  assumes "moves r \<le> moves_limit" "relayed r = moves r" "3 \<le> length (io_black r)"
    "2 \<le> length (io_white r)"
  shows "relayed (final (relay r ls)) = moves (final (relay r ls)) \<and>
         (case relay r ls of
            Running r' \<Rightarrow> moves r' \<le> moves_limit
          | Exit c r' \<Rightarrow> moves r' \<le> moves_limit \<or>
              (moves r' = moves_limit + 1 \<and> draw_declared (Exit c r')))"
  using assms
proof (induction ls arbitrary: r)
  case Nil
  then show ?case by simp
next
  case (Cons p ls)
  obtain lb lw where p: "p = (lb, lw)" by (cases p)
  note b = on_line_black_inv [OF Cons.prems, of lb]
  show ?case
  proof (cases "on_line_black r lb")
    case (Exit c r1)
    with b show ?thesis by (simp add: p)
  next
    case (Running r1)
    with b have pre: "moves r1 \<le> moves_limit" "relayed r1 = moves r1"
      "3 \<le> length (io_black r1)" "2 \<le> length (io_white r1)"
      by simp_all
    note w = on_line_white_inv [OF pre, of lb lw]
    show ?thesis
    proof (cases "on_line_white r1 lb lw")
      case (Exit c r2)
      with w Running show ?thesis by (simp add: p)
    next
      case Running2: (Running r2)
      with w have pre2: "moves r2 \<le> moves_limit" "relayed r2 = moves r2"
        "3 \<le> length (io_black r2)" "2 \<le> length (io_white r2)"
        by simp_all
      from Cons.IH [OF pre2] Running Running2 show ?thesis by (simp add: p)
    qed
  qed
qed

text \<open>One line of either engine that does not stop the match.\<close>

lemma on_line_black_step:
  assumes "\<not> stops_black l"
  shows "if move_line l \<and> moves r + 1 > moves_limit
         then draw_declared (on_line_black r l) \<and>
              moves (final (on_line_black r l)) = moves r + 1
         else on_line_black r l = Running (final (on_line_black r l)) \<and>
              moves (final (on_line_black r l)) = moves r + (if move_line l then 1 else 0)"
  using assms
  by (auto simp: on_line_black_def substr_5_4_def move_line_def stops_black_def
      draw_declared_def Let_def)

lemma on_line_white_step:
  assumes "\<not> stops_white l"
  shows "if move_line l \<and> moves r + 1 > moves_limit
         then draw_declared (on_line_white r k l) \<and>
              moves (final (on_line_white r k l)) = moves r + 1
         else on_line_white r k l = Running (final (on_line_white r k l)) \<and>
              moves (final (on_line_white r k l)) = moves r + (if move_line l then 1 else 0)"
  using assms
  by (auto simp: on_line_white_def substr_5_4_def move_line_def stops_white_def
      draw_declared_def Let_def)

lemma relay_uninterrupted:
  assumes "uninterrupted ls" "moves r \<le> moves_limit"
  shows "if moves r + int (moves_received ls) > moves_limit
         then draw_declared (relay r ls) \<and> moves (final (relay r ls)) = moves_limit + 1
         else relay r ls = Running (final (relay r ls)) \<and>
              moves (final (relay r ls)) = moves r + int (moves_received ls)"
  using assms
proof (induction ls arbitrary: r)
  case Nil
  then show ?case by simp
next
  case (Cons p ls)
  obtain lb lw where p: "p = (lb, lw)" by (cases p)
  from Cons.prems(1) have nb: "\<not> stops_black lb" and nw: "\<not> stops_white lw"
    and rest: "uninterrupted ls"
    by (simp_all add: uninterrupted_def p)
  note b = on_line_black_step [OF nb, of r]
  show ?case
  proof (cases "move_line lb \<and> moves r + 1 > moves_limit")
    case True
    with b have d: "draw_declared (on_line_black r lb)"
      and m: "moves (final (on_line_black r lb)) = moves r + 1" by simp_all
    from d obtain c r1 where e: "on_line_black r lb = Exit c r1"
      by (cases "on_line_black r lb") (simp_all add: draw_declared_def)
    from True Cons.prems(2) have "moves r = moves_limit" by simp
    with True d m e show ?thesis by (auto simp: p)
  next
    case False
    with b obtain r1 where r1: "on_line_black r lb = Running r1"
      and m1: "moves r1 = moves r + (if move_line lb then 1 else 0)"
      by (cases "on_line_black r lb") (simp_all split: if_splits)
    from False Cons.prems(2) m1 have le1: "moves r1 \<le> moves_limit"
      by (auto split: if_splits)
    note w = on_line_white_step [OF nw, of r1 lb]
    show ?thesis
    proof (cases "move_line lw \<and> moves r1 + 1 > moves_limit")
      case True
      with w have d: "draw_declared (on_line_white r1 lb lw)"
        and m: "moves (final (on_line_white r1 lb lw)) = moves r1 + 1" by simp_all
      from d obtain c r2 where e: "on_line_white r1 lb lw = Exit c r2"
        by (cases "on_line_white r1 lb lw") (simp_all add: draw_declared_def)
      from True le1 have "moves r1 = moves_limit" by simp
      with True d m e r1 m1 show ?thesis by (auto simp: p)
    next
      case nolimit: False
      with w obtain r2 where r2: "on_line_white r1 lb lw = Running r2"
        and m2: "moves r2 = moves r1 + (if move_line lw then 1 else 0)"
        by (cases "on_line_white r1 lb lw") (simp_all split: if_splits)
      from nolimit le1 m2 have le2: "moves r2 \<le> moves_limit"
        by (auto split: if_splits)
      have eq: "moves r2 + int (moves_received ls) = moves r + int (moves_received (p # ls))"
        using m1 m2 by (simp add: p)
      from Cons.IH [OF rest le2] r1 r2 show ?thesis
        unfolding eq [symmetric] by (simp add: p)
    qed
  qed
qed

lemma moves_received_replicate:
  "moves_received (replicate n (a, b)) =
     n * ((if move_line a then 1 else 0) + (if move_line b then 1 else 0))"
  by (induction n) simp_all

lemma uninterrupted_replicate:
  "\<not> stops_black a \<Longrightarrow> \<not> stops_white b \<Longrightarrow> uninterrupted (replicate n (a, b))"
  by (induction n) (simp_all add: uninterrupted_def)


text \<open>
  C9. The core performs no draw detection: the result the engine announces is never the
  draw line, and a position with a legal move has no result, however many plies were
  played. The runner caps the plies instead. Whatever the engines send, its counter
  never passes 300, and once it exceeds the limit of 299 the runner has printed
  \<open>RESULT 1/2-1/2 {Draw}\<close> as its last line and returned 0. As long as no engine
  sends a line that stops the match, the counter is the number of move lines received
  from the two engines: with at most 299 of them the runner is still running, with more
  it has declared the draw at the 300th.
\<close>

theorem runner_caps_plies:
  "moves_limit = 299 \<and>
   moves (final (relay (runner_start d) ls)) \<le> moves_limit + 1 \<and>
   relayed (final (relay (runner_start d) ls)) = moves (final (relay (runner_start d) ls)) \<and>
   (moves (final (relay (runner_start d) ls)) > moves_limit \<longrightarrow>
      draw_declared (relay (runner_start d) ls)) \<and>
   (uninterrupted ls \<longrightarrow>
      (if int (moves_received ls) > moves_limit
       then draw_declared (relay (runner_start d) ls) \<and>
            moves (final (relay (runner_start d) ls)) = moves_limit + 1
       else relay (runner_start d) ls = Running (final (relay (runner_start d) ls)) \<and>
            moves (final (relay (runner_start d) ls)) = int (moves_received ls))) \<and>
   result b \<noteq> Some ''RESULT 1/2-1/2 {Draw}'' \<and>
   (generate_moves b \<noteq> [] \<longrightarrow> result b = None)"
proof -
  have start: "moves (runner_start d) \<le> moves_limit"
    "relayed (runner_start d) = moves (runner_start d)"
    "3 \<le> length (io_black (runner_start d))" "2 \<le> length (io_white (runner_start d))"
    by (simp_all add: runner_start_def moves_limit_def relayed_def)
  have zero: "moves (runner_start d) = 0"
    by (simp add: runner_start_def)
  have cap: "relayed (final (relay (runner_start d) ls)) =
      moves (final (relay (runner_start d) ls)) \<and>
    moves (final (relay (runner_start d) ls)) \<le> moves_limit + 1 \<and>
    (moves (final (relay (runner_start d) ls)) > moves_limit \<longrightarrow>
      draw_declared (relay (runner_start d) ls))"
    using relay_inv [OF start, of ls]
    by (cases "relay (runner_start d) ls") auto
  have count: "if int (moves_received ls) > moves_limit
       then draw_declared (relay (runner_start d) ls) \<and>
            moves (final (relay (runner_start d) ls)) = moves_limit + 1
       else relay (runner_start d) ls = Running (final (relay (runner_start d) ls)) \<and>
            moves (final (relay (runner_start d) ls)) = int (moves_received ls)"
    if "uninterrupted ls"
    using relay_uninterrupted [OF that start(1)] by (simp add: zero)
  have core: "result b \<noteq> Some ''RESULT 1/2-1/2 {Draw}''"
    "generate_moves b \<noteq> [] \<longrightarrow> result b = None"
    by (cases "side_to_move b"; simp add: result_def)+
  from cap count core show ?thesis
    by (simp add: moves_limit_def)
qed

text \<open>
  An instance: the engines alternate, black sending \<open>move 11-15\<close> and white
  \<open>move 22-18\<close>, 150 times each; the 300th move line is white's. The position with one
  black man on square 1 has a legal move and no result.
\<close>

theorem runner_caps_plies_witness:
  "uninterrupted (replicate 150 (''move 11-15'', ''move 22-18'')) \<and>
   int (moves_received (replicate 150 (''move 11-15'', ''move 22-18''))) > moves_limit \<and>
   draw_declared (relay (runner_start 6) (replicate 150 (''move 11-15'', ''move 22-18''))) \<and>
   moves (final (relay (runner_start 6) (replicate 150 (''move 11-15'', ''move 22-18'')))) = 300 \<and>
   generate_moves \<lparr>black_pieces = 1, white_pieces = 0, black_kings = 0, white_kings = 0,
      side_to_move = BLACK\<rparr> \<noteq> [] \<and>
   result \<lparr>black_pieces = 1, white_pieces = 0, black_kings = 0, white_kings = 0,
      side_to_move = BLACK\<rparr> = None"
proof -
  have u: "uninterrupted (replicate 150 (''move 11-15'', ''move 22-18''))"
    by (rule uninterrupted_replicate) (simp_all add: stops_black_def stops_white_def move_line_def)
  have n: "int (moves_received (replicate 150 (''move 11-15'', ''move 22-18''))) > moves_limit"
    by (simp add: moves_received_replicate move_line_def moves_limit_def)
  have g: "generate_moves \<lparr>black_pieces = 1, white_pieces = 0, black_kings = 0,
      white_kings = 0, side_to_move = BLACK\<rparr> \<noteq> []"
    by (simp add: generate_moves_def generate_jumps_def generate_slides_def piece_jumps_def
        piece_slides_def pieces_to_move_def squares_def directions_def can_jump_def jumped_def
        landing_def pieces_of_def kings_of_def opponent_def get_not_occupied_def LF_def RF_def
        EVEN_ROWS_def ODD_ROWS_def FIRST_COLUMN_def LAST_COLUMN_def Let_def
        cong: let_weak_cong)
  from runner_caps_plies [of 6 "replicate 150 (''move 11-15'', ''move 22-18'')"
      "\<lparr>black_pieces = 1, white_pieces = 0, black_kings = 0, white_kings = 0,
        side_to_move = BLACK\<rparr>"] u n g
  show ?thesis by (simp add: moves_limit_def)
qed

text \<open>
  The terminal scenario of the specification: black to move has no piece, and the
  result is a win for white, not a draw.
\<close>

lemma result_no_pieces:
  "result \<lparr>black_pieces = 0, white_pieces = 0xFFF00000, black_kings = 0, white_kings = 0,
      side_to_move = BLACK\<rparr> = Some ''RESULT 1-0 {White wins}''"
  by (simp add: result_def generate_moves_def generate_jumps_def generate_slides_def
      pieces_to_move_def squares_def pieces_of_def)

text \<open>
  C10, as amended. For a move line (first character \<open>m\<close>) of at least five characters
  the runner forwards \<open>substr(5, 4)\<close> to the opposing engine: the characters at offsets
  5 through 8 that the line has, all four of them when the line has at least nine
  characters. For every move text longer than four characters after \<open>move \<close>, the
  forwarded token is its proper prefix of length four.
\<close>

theorem relay_forwards_substr:
  "(line \<noteq> [] \<and> hd line = CHR ''m'' \<and> 5 \<le> length line \<longrightarrow>
      io_white (final (on_line_black r line)) = io_white r @ [take 4 (drop 5 line)] \<and>
      io_black (final (on_line_white r other line)) = io_black r @ [take 4 (drop 5 line)]) \<and>
   (9 \<le> length line \<longrightarrow>
      take 4 (drop 5 line) = [line ! 5, line ! 6, line ! 7, line ! 8]) \<and>
   (line = ''move '' @ t \<and> 4 < length t \<longrightarrow>
      take 4 (drop 5 line) = take 4 t \<and> strict_prefix (take 4 t) t)"
proof -
  have a: "io_white (final (on_line_black r line)) = io_white r @ [take 4 (drop 5 line)]"
    if "line \<noteq> []" "hd line = CHR ''m''" "5 \<le> length line"
    using that by (simp add: on_line_black_def substr_5_4_def Let_def)
  have b: "io_black (final (on_line_white r other line)) = io_black r @ [take 4 (drop 5 line)]"
    if "line \<noteq> []" "hd line = CHR ''m''" "5 \<le> length line"
    using that by (simp add: on_line_white_def substr_5_4_def Let_def)
  have c: "take 4 (drop 5 line) = [line ! 5, line ! 6, line ! 7, line ! 8]"
    if "9 \<le> length line"
  proof (rule nth_equalityI)
    show "length (take 4 (drop 5 line)) = length [line ! 5, line ! 6, line ! 7, line ! 8]"
      using that by simp
  next
    fix i assume "i < length (take 4 (drop 5 line))"
    then have "i < 4" by simp
    then consider "i = 0" | "i = 1" | "i = 2" | "i = 3" by linarith
    then show "take 4 (drop 5 line) ! i = [line ! 5, line ! 6, line ! 7, line ! 8] ! i"
      using that by cases simp_all
  qed
  have d: "strict_prefix (take 4 t) t" if "4 < length t"
  proof -
    have "t = take 4 t @ drop 4 t" by simp
    moreover have "drop 4 t \<noteq> []" using that by simp
    ultimately show ?thesis
      unfolding strict_prefix_def prefix_def by (metis append_Nil2 same_append_eq)
  qed
  show ?thesis
    using a b c d by auto
qed

theorem relay_forwards_substr_witness:
  "io_white (final (on_line_black (runner_start 1) ''move 11-15'')) =
     [''st 999'', ''sd 1'', ''11-1''] \<and>
   io_black (final (on_line_white (runner_start 1) [] ''move 11x18x25'')) =
     [''st 999'', ''sd 1'', ''go'', ''11x1''] \<and>
   strict_prefix ''11-1'' ''11-15''"
  using relay_forwards_substr [of "''move 11-15''" "runner_start 1" "[]" "''11-15''"]
    relay_forwards_substr [of "''move 11x18x25''" "runner_start 1" "[]" "''11x18x25''"]
  by (simp add: runner_start_def)

text \<open>
  C10 as stated fails on a short move: from the line \<open>move 1-5\<close> the runner forwards the
  three characters \<open>1-5\<close>, not four.
\<close>

theorem short_move_line_forwards_three:
  "io_white (final (on_line_black (runner_start 1) ''move 1-5'')) =
     [''st 999'', ''sd 1'', ''1-5''] \<and>
   length ''1-5'' \<noteq> 4"
  by (simp add: on_line_black_def substr_5_4_def runner_start_def moves_limit_def)

section \<open>Properties of the move generator\<close>

text \<open>
  One unfolding of the multi-jump enumeration, as a membership and as rules: a sequence
  stops where no jump is left, ends on the crowning row, or goes on after a jump.
\<close>

lemma in_jump_sequences_iff:
  "r \<in> set (jump_sequences ds crown enemy vacant s cap) \<longleftrightarrow>
     (if \<forall>d\<in>set ds. \<not> can_jump d s enemy vacant then r = (s, cap, False)
      else \<exists>d\<in>set ds. can_jump d s enemy vacant \<and>
            (if landing d s enemy vacant AND crown \<noteq> 0
             then r = (landing d s enemy vacant, cap OR jumped d s enemy, True)
             else r \<in> set (jump_sequences ds crown (enemy AND NOT (jumped d s enemy))
                    (vacant OR jumped d s enemy) (landing d s enemy vacant)
                    (cap OR jumped d s enemy))))"
  by (subst jump_sequences.simps) (auto simp: filter_empty_conv split: if_splits)

lemma jump_sequences_stop:
  "\<forall>d\<in>set ds. \<not> can_jump d s enemy vacant \<Longrightarrow>
   (s, cap, False) \<in> set (jump_sequences ds crown enemy vacant s cap)"
  by (subst in_jump_sequences_iff) simp

lemma jump_sequences_crown:
  "d \<in> set ds \<Longrightarrow> can_jump d s enemy vacant \<Longrightarrow> landing d s enemy vacant AND crown \<noteq> 0 \<Longrightarrow>
   (landing d s enemy vacant, cap OR jumped d s enemy, True)
     \<in> set (jump_sequences ds crown enemy vacant s cap)"
  by (subst in_jump_sequences_iff) auto

lemma jump_sequences_continue:
  "d \<in> set ds \<Longrightarrow> can_jump d s enemy vacant \<Longrightarrow> landing d s enemy vacant AND crown = 0 \<Longrightarrow>
   r \<in> set (jump_sequences ds crown (enemy AND NOT (jumped d s enemy))
          (vacant OR jumped d s enemy) (landing d s enemy vacant) (cap OR jumped d s enemy)) \<Longrightarrow>
   r \<in> set (jump_sequences ds crown enemy vacant s cap)"
  by (subst in_jump_sequences_iff) auto

lemma jump_sequences_nonempty: "\<exists>r. r \<in> set (jump_sequences ds crown enemy vacant s cap)"
proof (induction ds crown enemy vacant s cap rule: jump_sequences.induct)
  case (1 ds crown enemy vacant s cap)
  show ?case
  proof (cases "\<forall>d\<in>set ds. \<not> can_jump d s enemy vacant")
    case True
    then show ?thesis using jump_sequences_stop by blast
  next
    case False
    then obtain d where d: "d \<in> set ds" "can_jump d s enemy vacant" by blast
    then have f: "filter (\<lambda>d. can_jump d s enemy vacant) ds \<noteq> []"
      and m: "d \<in> set (filter (\<lambda>d. can_jump d s enemy vacant) ds)"
      by (auto simp: filter_empty_conv)
    show ?thesis
    proof (cases "landing d s enemy vacant AND crown \<noteq> 0")
      case True
      with d show ?thesis using jump_sequences_crown by blast
    next
      case no_crown: False
      from "1.IH" [OF f m no_crown] obtain r where
        "r \<in> set (jump_sequences ds crown (enemy AND NOT (jumped d s enemy))
                    (vacant OR jumped d s enemy) (landing d s enemy vacant)
                    (cap OR jumped d s enemy))" by blast
      with d no_crown show ?thesis using jump_sequences_continue by blast
    qed
  qed
qed

lemma or_nonzero: "(a::bitboard) \<noteq> 0 \<Longrightarrow> a OR b \<noteq> 0"
  by (simp add: or_eq_0_iff)

lemma jump_sequences_cases:
  assumes "r \<in> set (jump_sequences ds crown enemy vacant s cap)"
  obtains
    (stop) "\<forall>d\<in>set ds. \<not> can_jump d s enemy vacant" "r = (s, cap, False)"
  | (crowned) d where "d \<in> set ds" "can_jump d s enemy vacant"
      "landing d s enemy vacant AND crown \<noteq> 0"
      "r = (landing d s enemy vacant, cap OR jumped d s enemy, True)"
  | (continue) d where "d \<in> set ds" "can_jump d s enemy vacant"
      "landing d s enemy vacant AND crown = 0"
      "r \<in> set (jump_sequences ds crown (enemy AND NOT (jumped d s enemy))
          (vacant OR jumped d s enemy) (landing d s enemy vacant) (cap OR jumped d s enemy))"
proof (cases "\<forall>d\<in>set ds. \<not> can_jump d s enemy vacant")
  case True
  with iffD1 [OF in_jump_sequences_iff assms] have "r = (s, cap, False)" by simp
  with True show thesis by (rule stop)
next
  case False
  with iffD1 [OF in_jump_sequences_iff assms] obtain d where
    d: "d \<in> set ds" "can_jump d s enemy vacant" and
    r: "if landing d s enemy vacant AND crown \<noteq> 0
        then r = (landing d s enemy vacant, cap OR jumped d s enemy, True)
        else r \<in> set (jump_sequences ds crown (enemy AND NOT (jumped d s enemy))
               (vacant OR jumped d s enemy) (landing d s enemy vacant)
               (cap OR jumped d s enemy))"
    by (simp only: if_False) blast
  show thesis
  proof (cases "landing d s enemy vacant AND crown \<noteq> 0")
    case True
    with r have "r = (landing d s enemy vacant, cap OR jumped d s enemy, True)" by simp
    with d True show thesis by (rule crowned)
  next
    case False
    with r have "r \<in> set (jump_sequences ds crown (enemy AND NOT (jumped d s enemy))
               (vacant OR jumped d s enemy) (landing d s enemy vacant)
               (cap OR jumped d s enemy))" by simp
    with d False show thesis by (intro continue [of d]) simp_all
  qed
qed

lemma in_filter_can_jump:
  "d \<in> set ds \<Longrightarrow> can_jump d s enemy vacant \<Longrightarrow>
   filter (\<lambda>d. can_jump d s enemy vacant) ds \<noteq> [] \<and>
   d \<in> set (filter (\<lambda>d. can_jump d s enemy vacant) ds)"
  by (auto simp: filter_empty_conv)

lemma jump_sequences_capture:
  "(t, c, cr) \<in> set (jump_sequences ds crown enemy vacant s cap) \<Longrightarrow> cap \<noteq> 0 \<Longrightarrow> c \<noteq> 0"
proof (induction ds crown enemy vacant s cap rule: jump_sequences.induct)
  case (1 ds crown enemy vacant s cap)
  from "1.prems"(1) show ?case
  proof (cases rule: jump_sequences_cases)
    case stop
    with "1.prems"(2) show ?thesis by simp
  next
    case (crowned d)
    with or_nonzero [OF "1.prems"(2)] show ?thesis by simp
  next
    case (continue d)
    from in_filter_can_jump [OF continue(1,2)] have
      f: "filter (\<lambda>d. can_jump d s enemy vacant) ds \<noteq> []" and
      m: "d \<in> set (filter (\<lambda>d. can_jump d s enemy vacant) ds)" by simp_all
    have nc: "\<not> landing d s enemy vacant AND crown \<noteq> 0" using continue(3) by simp
    from "1.IH" [OF f m nc continue(4) or_nonzero [OF "1.prems"(2)]] show ?thesis .
  qed
qed

lemma first_jump_captures:
  assumes "(t, c, cr) \<in> set (jump_sequences ds crown enemy vacant s 0)"
    and "\<not> (\<forall>d\<in>set ds. \<not> can_jump d s enemy vacant)"
  shows "c \<noteq> 0"
  using assms(1)
proof (cases rule: jump_sequences_cases)
  case stop
  with assms(2) show ?thesis by simp
next
  case (crowned d)
  then show ?thesis by (simp add: can_jump_def)
next
  case (continue d)
  then have "0 OR jumped d s enemy \<noteq> 0" by (simp add: can_jump_def)
  from jump_sequences_capture [OF continue(4) this] show ?thesis .
qed

lemma piece_jumps_capture: "m \<in> set (piece_jumps b s) \<Longrightarrow> capture m \<noteq> 0"
  by (auto simp: piece_jumps_def Let_def filter_empty_conv split: if_splits
      dest!: first_jump_captures)

lemma generate_jumps_capture: "m \<in> set (generate_jumps b) \<Longrightarrow> capture m \<noteq> 0"
  by (auto simp: generate_jumps_def dest: piece_jumps_capture)

lemma piece_jumps_nonempty:
  assumes "legal_jump b s e d"
  shows "piece_jumps b s \<noteq> []"
proof -
  let ?p = "side_to_move b"
  let ?king = "s AND kings_of ?p b \<noteq> 0"
  let ?enemy = "pieces_of (opponent ?p) b"
  let ?vacant = "get_not_occupied b OR s"
  from assms obtain dir where dir: "dir \<in> set (directions ?p ?king)"
    and e: "e = shift dir s AND ?enemy" "e \<noteq> 0"
    and d: "d = shift dir e AND get_not_occupied b" "d \<noteq> 0"
    by (auto simp: legal_jump_def list_ex_iff)
  have "landing dir s ?enemy ?vacant \<noteq> 0"
  proof
    assume z: "landing dir s ?enemy ?vacant = 0"
    have "d = d AND landing dir s ?enemy ?vacant"
      unfolding landing_def jumped_def d(1) e(1)
      by (simp add: bit_eq_iff bit_and_iff bit_or_iff) blast
    with z d(2) show False by simp
  qed
  with e have "can_jump dir s ?enemy ?vacant"
    by (simp add: can_jump_def jumped_def)
  with dir have "filter (\<lambda>d. can_jump d s ?enemy ?vacant) (directions ?p ?king) \<noteq> []"
    by (auto simp: filter_empty_conv)
  moreover obtain r where "r \<in> set (jump_sequences (directions ?p ?king)
      (if ?king then 0 else crowning_row ?p) ?enemy ?vacant s 0)"
    using jump_sequences_nonempty by blast
  ultimately show ?thesis
    by (auto simp: piece_jumps_def Let_def)
qed

text \<open>
  C1. Mandatory capture: on every position, if the side to move has a legal jump, the
  generator returns at least one move, and every move it returns is a jump; none is a
  slide.
\<close>

theorem mandatory_capture:
  assumes "legal_jump b s e d"
  shows "generate_moves b \<noteq> [] \<and>
         (\<forall>m \<in> set (generate_moves b). is_jump m \<and> \<not> is_slide m)"
proof -
  from assms have "s \<in> set (pieces_to_move b)"
    by (simp add: legal_jump_def)
  moreover from assms have "piece_jumps b s \<noteq> []"
    by (rule piece_jumps_nonempty)
  ultimately have ne: "generate_jumps b \<noteq> []"
    by (auto simp: generate_jumps_def)
  then have "generate_moves b = generate_jumps b"
    by (simp add: generate_moves_def)
  with ne generate_jumps_capture [of _ b] show ?thesis
    by (auto simp: is_jump_def is_slide_def)
qed

text \<open>
  An instance: a white man on square 22, a black man on 18 and square 15 empty, white to
  move.
\<close>

theorem mandatory_capture_witness:
  "legal_jump \<lparr>black_pieces = 0x20000, white_pieces = 0x200000, black_kings = 0,
       white_kings = 0, side_to_move = WHITE\<rparr> 0x200000 0x20000 0x4000 \<and>
   generate_moves \<lparr>black_pieces = 0x20000, white_pieces = 0x200000, black_kings = 0,
       white_kings = 0, side_to_move = WHITE\<rparr> \<noteq> [] \<and>
   list_all (\<lambda>m. is_jump m \<and> \<not> is_slide m)
     (generate_moves \<lparr>black_pieces = 0x20000, white_pieces = 0x200000,
       black_kings = 0, white_kings = 0, side_to_move = WHITE\<rparr>)"
proof -
  have h: "legal_jump \<lparr>black_pieces = 0x20000, white_pieces = 0x200000, black_kings = 0,
       white_kings = 0, side_to_move = WHITE\<rparr> 0x200000 0x20000 0x4000"
    by (simp add: legal_jump_def pieces_to_move_def squares_def directions_def pieces_of_def
        kings_of_def opponent_def get_not_occupied_def LB_def RB_def EVEN_ROWS_def ODD_ROWS_def
        FIRST_COLUMN_def LAST_COLUMN_def)
  from mandatory_capture [OF h] h show ?thesis by (simp add: list_all_iff)
qed

section \<open>Properties of the search driver\<close>

text \<open>
  The loop stops after a prefix of completed iterations: at the depth limit, or at the
  first iteration that times out.
\<close>

lemma deepening_stops:
  "\<exists>k. j \<le> k \<and> k \<le> j + n \<and> (\<forall>i. j < i \<and> i \<le> k \<longrightarrow> completes ab i) \<and>
       (k < j + n \<longrightarrow> \<not> completes ab (Suc k)) \<and>
       deepening ab n (Suc j) (after_iterations ab j) = after_iterations ab k"
proof (induction n arbitrary: j)
  case 0
  show ?case by (rule exI [of _ j]) auto
next
  case (Suc n)
  show ?case
  proof (cases "completes ab (Suc j)")
    case False
    then have "deepening ab (Suc n) (Suc j) (after_iterations ab j) = after_iterations ab j"
      by (auto simp: completes_def split: prod.splits)
    with False show ?thesis
      by (intro exI [of _ j]) auto
  next
    case True
    then have step: "deepening ab (Suc n) (Suc j) (after_iterations ab j) =
        deepening ab n (Suc (Suc j)) (after_iterations ab (Suc j))"
      by (auto simp: completes_def Let_def split: prod.splits)
    from Suc.IH [of "Suc j"] obtain k where k: "Suc j \<le> k" "k \<le> Suc j + n"
      "\<forall>i. Suc j < i \<and> i \<le> k \<longrightarrow> completes ab i"
      "k < Suc j + n \<longrightarrow> \<not> completes ab (Suc k)"
      "deepening ab n (Suc (Suc j)) (after_iterations ab (Suc j)) = after_iterations ab k"
      by blast
    have "\<forall>i. j < i \<and> i \<le> k \<longrightarrow> completes ab i"
    proof (intro allI impI)
      fix i assume "j < i \<and> i \<le> k"
      then have "i = Suc j \<or> (Suc j < i \<and> i \<le> k)" by auto
      with True k(3) show "completes ab i" by auto
    qed
    with k step show ?thesis
      by (intro exI [of _ k]) simp
  qed
qed

lemma shown_after_iterations:
  "map fst (shown (after_iterations ab k)) = [1..<Suc k]"
  by (induction k) (simp_all add: think_start_def Let_def)

text \<open>
  C5. \<open>think\<close> never returns the line of an iteration that did not run to completion.
  There is a number \<open>k\<close> of iterations, at most the depth limit, such that the
  iterations 1 to \<open>k\<close> all ran to completion, iteration \<open>k + 1\<close> timed out unless \<open>k\<close>
  is the depth limit, the value returned is the line iteration \<open>k\<close> left (the empty
  line when \<open>k\<close> is 0), and the progress sink was called for the depths 1 to \<open>k\<close> only.
\<close>

theorem think_returns_last_completed_iteration:
  "\<exists>k. int k \<le> max 0 depth_limit \<and>
       (\<forall>i. 1 \<le> i \<and> i \<le> k \<longrightarrow> completes ab i) \<and>
       (int k < depth_limit \<longrightarrow> \<not> completes ab (Suc k)) \<and>
       think ab depth_limit = best_moves (after_iterations ab k) \<and>
       map fst (shown (think_run ab depth_limit)) = [1..<Suc k]"
proof -
  from deepening_stops [of 0 "nat depth_limit" ab] obtain k where
    k: "k \<le> nat depth_limit" "\<forall>i. 0 < i \<and> i \<le> k \<longrightarrow> completes ab i"
    "k < nat depth_limit \<longrightarrow> \<not> completes ab (Suc k)"
    "deepening ab (nat depth_limit) (Suc 0) (after_iterations ab 0) = after_iterations ab k"
    by auto
  from k(4) have run: "think_run ab depth_limit = after_iterations ab k"
    by (simp add: think_run_def)
  show ?thesis
  proof (intro exI [of _ k] conjI)
    show "int k \<le> max 0 depth_limit" using k(1) by simp
    show "\<forall>i. 1 \<le> i \<and> i \<le> k \<longrightarrow> completes ab i" using k(2) by auto
    show "int k < depth_limit \<longrightarrow> \<not> completes ab (Suc k)" using k(3) by auto
    show "think ab depth_limit = best_moves (after_iterations ab k)"
      by (simp add: think_def run)
    show "map fst (shown (think_run ab depth_limit)) = [1..<Suc k]"
      by (simp add: run shown_after_iterations)
  qed
qed

theorem think_returns_last_completed_iteration_witness:
  "completes two_then_timeout 1 \<and> completes two_then_timeout 2 \<and>
   \<not> completes two_then_timeout 3 \<and>
   think two_then_timeout 5 =
     [\<lparr>orig = 0x100, dest = 0x2000, capture = 0,
       will_capture_a_king = False, will_crown = False\<rparr>]"
proof -
  have c: "completes two_then_timeout i \<longleftrightarrow> i = 1 \<or> i = 2" for i
    by (simp add: completes_def two_then_timeout_def TIMEOUT_def INT_MIN_def)
  from think_returns_last_completed_iteration [of 5 two_then_timeout] obtain k where
    k: "\<forall>i. 1 \<le> i \<and> i \<le> k \<longrightarrow> completes two_then_timeout i"
    "int k < 5 \<longrightarrow> \<not> completes two_then_timeout (Suc k)"
    "think two_then_timeout 5 = best_moves (after_iterations two_then_timeout k)"
    by blast
  have "k < 3"
  proof (rule ccontr)
    assume "\<not> k < 3"
    with k(1) have "completes two_then_timeout 3" by simp
    with c show False by simp
  qed
  moreover from this k(2) c have "Suc k \<noteq> 1 \<and> Suc k \<noteq> 2" by auto
  ultimately have "k = 2" by arith
  then have "k = Suc (Suc 0)" by simp
  with k(3) have "think two_then_timeout 5 =
     [\<lparr>orig = 0x100, dest = 0x2000, capture = 0,
       will_capture_a_king = False, will_crown = False\<rparr>]"
    by (simp add: two_then_timeout_def Let_def)
  with c show ?thesis by simp
qed

end
